theory Spec2Isabelle
  imports Complex_Main "HOL-Library.Multiset"
begin

section \<open>The mesh physics library (src/mesh.js)\<close>

text \<open>
  Numbers of the source are modelled as the real numbers they approximate: rounding,
  overflow and the special values of IEEE arithmetic are outside this development.
  Objects of the source have identity (the code compares them with \<open>===\<close>), so a
  node is a reference into a store of node objects, and the collections of the mesh hold
  references. Link and angle-constraint objects are never compared or mutated after
  their construction: they are plain values.
\<close>

subsection \<open>Data model\<close>

type_synonym ref = nat

text \<open>class Node: position, previous position, accumulated acceleration, radius, mass, pinned.\<close>

record node =
  n_x :: real
  n_y :: real
  n_px :: real
  n_py :: real
  n_ax :: real
  n_ay :: real
  n_r :: real
  n_mass :: real
  n_pinned :: bool

text \<open>class Link: the two endpoints, the rest length and the stiffness.\<close>

record link =
  l_a :: ref
  l_b :: ref
  l_rest :: real
  l_stiffness :: real

text \<open>class AngleConstraint: \<open>c_b\<close> is the centre node.\<close>

record angleConstraint =
  c_a :: ref
  c_b :: ref
  c_c :: ref
  c_stiffness :: real
  c_restDistance :: real

text \<open>
  class Mesh: the configuration, the three collections, and the store of the node
  objects the collections refer to (\<open>heap\<close>, with \<open>nextRef\<close> the next unused
  reference).
\<close>

record mesh =
  gravity_x :: real
  gravity_y :: real
  damping :: real
  solverIterations :: real
  stiffness :: real
  wallRestitution :: real
  groundRestitution :: real
  friction :: real
  bounds_width :: real
  bounds_height :: real
  groundY :: real
  defaultNodeRadius :: real
  defaultNodeMass :: real
  nodes :: "ref list"
  links :: "link list"
  angleConstraints :: "angleConstraint list"
  heap :: "ref \<Rightarrow> node"
  nextRef :: ref

subsection \<open>removeNode\<close>

text \<open>The first loop of removeNode: the other endpoint of every link at the node.\<close>

fun connectedNodes :: "link list \<Rightarrow> ref \<Rightarrow> ref list" where
  "connectedNodes [] node = []"
| "connectedNodes (l # ls) node =
     (if l_a l = node then l_b l # connectedNodes ls node
      else if l_b l = node then l_a l # connectedNodes ls node
      else connectedNodes ls node)"

text \<open>Array.prototype.indexOf, with \<open>None\<close> for -1, and splice(i, 1).\<close>

fun indexOf :: "'a list \<Rightarrow> 'a \<Rightarrow> nat option" where
  "indexOf [] v = None"
| "indexOf (u # us) v =
     (if u = v then Some 0 else (case indexOf us v of None \<Rightarrow> None | Some i \<Rightarrow> Some (Suc i)))"

definition splice1 :: "'a list \<Rightarrow> nat \<Rightarrow> 'a list" where
  "splice1 xs i = take i xs @ drop (Suc i) xs"

text \<open>
  The straight-line part of removeNode: the links at the node are filtered out, then the
  angle constraints that mention it, then the node leaves the node array.
\<close>

definition detachNode :: "mesh \<Rightarrow> ref \<Rightarrow> mesh" where
  "detachNode m node =
     (let m1 = m\<lparr>links := filter (\<lambda>l. l_a l \<noteq> node \<and> l_b l \<noteq> node) (links m)\<rparr>;
          m2 = m1\<lparr>angleConstraints :=
                 filter (\<lambda>c. c_a c \<noteq> node \<and> c_b c \<noteq> node \<and> c_c c \<noteq> node) (angleConstraints m1)\<rparr>
      in case indexOf (nodes m2) node of
           None \<Rightarrow> m2
         | Some nodeIndex \<Rightarrow> m2\<lparr>nodes := splice1 (nodes m2) nodeIndex\<rparr>)"

definition connectionCount :: "mesh \<Rightarrow> ref \<Rightarrow> nat" where
  "connectionCount m c = length (filter (\<lambda>l. l_a l = c \<or> l_b l = c) (links m))"

text \<open>
  The size that decreases along the calls: the number of links first; a call of
  removeNode weighs less than any non-empty loop and more than the empty one.
\<close>

definition removeNode_size :: "mesh \<times> ref + mesh \<times> ref list \<Rightarrow> nat \<times> nat" where
  "removeNode_size z =
     (case z of Inl (m, node) \<Rightarrow> (length (links m), Suc 0)
              | Inr (m, cs) \<Rightarrow> (length (links m), 2 * length cs))"

text \<open>
  removeNode and its last loop, which calls removeNode again on every collected
  neighbour that has fewer than two links left at the moment the loop reaches it.
\<close>

function removeNode :: "mesh \<Rightarrow> ref \<Rightarrow> mesh"
  and removeOrphans :: "mesh \<Rightarrow> ref list \<Rightarrow> mesh" where
  "removeNode m node = removeOrphans (detachNode m node) (connectedNodes (links m) node)"
| "removeOrphans m [] = m"
| "removeOrphans m (connectedNode # rest) =
     removeOrphans
       (if connectionCount m connectedNode < 2 then removeNode m connectedNode else m) rest"
  by pat_completeness auto

lemma links_detachNode:
  "links (detachNode m node) = filter (\<lambda>l. l_a l \<noteq> node \<and> l_b l \<noteq> node) (links m)"
  by (simp add: detachNode_def Let_def split: option.split)

lemma connectedNodes_Nil_iff:
  "connectedNodes ls node = [] \<longleftrightarrow> (\<forall>l\<in>set ls. l_a l \<noteq> node \<and> l_b l \<noteq> node)"
  by (induction ls) auto

lemma length_links_detachNode:
  "length (links (detachNode m node)) \<le> length (links m)"
  by (simp add: links_detachNode)

lemma length_links_detachNode_less:
  assumes "connectedNodes (links m) node \<noteq> []"
  shows "length (links (detachNode m node)) < length (links m)"
proof -
  from assms obtain l where "l \<in> set (links m)" "\<not> (l_a l \<noteq> node \<and> l_b l \<noteq> node)"
    by (auto simp: connectedNodes_Nil_iff)
  then show ?thesis
    unfolding links_detachNode by (intro length_filter_less) auto
qed

lemma removeNode_dom_length_links:
  "removeNode_removeOrphans_dom (Inl (m, node)) \<Longrightarrow>
     length (links (removeNode m node)) \<le> length (links m)"
  "removeNode_removeOrphans_dom (Inr (m, cs)) \<Longrightarrow>
     length (links (removeOrphans m cs)) \<le> length (links m)"
proof (induct m node and m cs rule: removeNode_removeOrphans.pinduct)
  case (1 m node)
  then show ?case
    using length_links_detachNode [of m node] by (simp add: removeNode.psimps)
next
  case (2 m)
  then show ?case by (simp add: removeOrphans.psimps)
next
  case (3 m connectedNode rest)
  then show ?case
    by (auto simp: removeOrphans.psimps split: if_splits)
qed

termination removeNode
proof (relation "inv_image (less_than <*lex*> less_than) removeNode_size")
  show "wf (inv_image (less_than <*lex*> less_than) removeNode_size)"
    by (intro wf_inv_image wf_lex_prod wf_less_than)
next
  fix m :: mesh and node :: ref
  show "(Inr (detachNode m node, connectedNodes (links m) node), Inl (m, node))
      \<in> inv_image (less_than <*lex*> less_than) removeNode_size"
    using length_links_detachNode [of m node] length_links_detachNode_less [of m node]
    by (cases "connectedNodes (links m) node = []") (auto simp: removeNode_size_def)
next
  fix m :: mesh and connectedNode :: ref and rest :: "ref list"
  show "(Inl (m, connectedNode), Inr (m, connectedNode # rest))
      \<in> inv_image (less_than <*lex*> less_than) removeNode_size"
    by (simp add: removeNode_size_def)
next
  fix m :: mesh and connectedNode :: ref and rest :: "ref list"
  assume "connectionCount m connectedNode < 2 \<Longrightarrow>
          removeNode_removeOrphans_dom (Inl (m, connectedNode))"
  then show "(Inr (if connectionCount m connectedNode < 2 then removeNode m connectedNode else m, rest),
       Inr (m, connectedNode # rest))
      \<in> inv_image (less_than <*lex*> less_than) removeNode_size"
    using removeNode_dom_length_links(1) [of m connectedNode]
    by (cases "connectionCount m connectedNode < 2") (auto simp: removeNode_size_def)
qed

subsection \<open>Numbers and built-in functions\<close>

text \<open>
  \<open>v || d\<close> on a number that may be missing: undefined and 0 are falsy and give the
  default. Math.hypot is the Euclidean norm.
\<close>

definition orDefault :: "real option \<Rightarrow> real \<Rightarrow> real" where
  "orDefault v d = (case v of None \<Rightarrow> d | Some a \<Rightarrow> if a = 0 then d else a)"

definition orElse :: "real \<Rightarrow> real \<Rightarrow> real" where
  "orElse a d = (if a = 0 then d else a)"

definition hypot :: "real \<Rightarrow> real \<Rightarrow> real" where
  "hypot dx dy = sqrt (dx * dx + dy * dy)"

definition epsilon :: real where
  "epsilon = 1 / 10 ^ 6"

subsection \<open>Construction\<close>

record config =
  cfg_gravity :: "(real \<times> real) option"
  cfg_damping :: "real option"
  cfg_solverIterations :: "real option"
  cfg_stiffness :: "real option"
  cfg_wallRestitution :: "real option"
  cfg_groundRestitution :: "real option"
  cfg_friction :: "real option"
  cfg_bounds :: "(real \<times> real) option"
  cfg_groundY :: "real option"
  cfg_defaultNodeRadius :: "real option"
  cfg_defaultNodeMass :: "real option"

definition blankNode :: node where
  "blankNode = \<lparr>n_x = 0, n_y = 0, n_px = 0, n_py = 0, n_ax = 0, n_ay = 0,
                 n_r = 0, n_mass = 0, n_pinned = False\<rparr>"

text \<open>The constructor of Mesh. The store starts with no node object allocated.\<close>

definition newMesh :: "config \<Rightarrow> mesh" where
  "newMesh cfg =
     (let g = (case cfg_gravity cfg of None \<Rightarrow> (0, 175) | Some v \<Rightarrow> v);
          b = (case cfg_bounds cfg of None \<Rightarrow> (800, 600) | Some v \<Rightarrow> v)
      in \<lparr>gravity_x = fst g, gravity_y = snd g,
          damping = orDefault (cfg_damping cfg) 0.995,
          solverIterations = orDefault (cfg_solverIterations cfg) 6,
          stiffness = orDefault (cfg_stiffness cfg) 0.25,
          wallRestitution = orDefault (cfg_wallRestitution cfg) 0.25,
          groundRestitution = orDefault (cfg_groundRestitution cfg) 0.18,
          friction = orDefault (cfg_friction cfg) 0.85,
          bounds_width = fst b, bounds_height = snd b,
          groundY = orDefault (cfg_groundY cfg) (snd b - 90),
          defaultNodeRadius = orDefault (cfg_defaultNodeRadius cfg) 8,
          defaultNodeMass = orDefault (cfg_defaultNodeMass cfg) 15,
          nodes = [], links = [], angleConstraints = [],
          heap = (\<lambda>_. blankNode), nextRef = 0\<rparr>)"

text \<open>The constructor of Node.\<close>

definition newNode :: "real \<Rightarrow> real \<Rightarrow> real \<Rightarrow> real \<Rightarrow> bool \<Rightarrow> node" where
  "newNode x y r mass pinned =
     \<lparr>n_x = x, n_y = y, n_px = x, n_py = y, n_ax = 0, n_ay = 0,
      n_r = r, n_mass = mass, n_pinned = pinned\<rparr>"

record nodeOptions =
  opt_radius :: "real option"
  opt_mass :: "real option"
  opt_pinned :: "bool option"
  opt_initialVelocity :: "(real \<times> real) option"

definition noNodeOptions :: nodeOptions where
  "noNodeOptions = \<lparr>opt_radius = None, opt_mass = None, opt_pinned = None,
                     opt_initialVelocity = None\<rparr>"

text \<open>createNode allocates the node object at the next unused reference and pushes it.\<close>

definition createNode :: "mesh \<Rightarrow> real \<Rightarrow> real \<Rightarrow> nodeOptions \<Rightarrow> mesh \<times> ref" where
  "createNode m x y options =
     (let node = newNode x y
                   (orDefault (opt_radius options) (defaultNodeRadius m))
                   (orDefault (opt_mass options) (defaultNodeMass m))
                   (case opt_pinned options of None \<Rightarrow> False | Some p \<Rightarrow> p);
          node' = (case opt_initialVelocity options of
                     None \<Rightarrow> node
                   | Some (vx, vy) \<Rightarrow> node\<lparr>n_px := x - vx, n_py := y - vy\<rparr>);
          this = nextRef m
      in (m\<lparr>heap := (heap m)(this := node'), nextRef := Suc this, nodes := nodes m @ [this]\<rparr>,
          this))"

text \<open>The constructors of Link and AngleConstraint read the positions of the nodes.\<close>

definition newLink :: "(ref \<Rightarrow> node) \<Rightarrow> ref \<Rightarrow> ref \<Rightarrow> real \<Rightarrow> real \<Rightarrow> link" where
  "newLink h a b stiff restMultiplier =
     (let dx = n_x (h b) - n_x (h a);
          dy = n_y (h b) - n_y (h a)
      in \<lparr>l_a = a, l_b = b, l_rest = hypot dx dy * restMultiplier, l_stiffness = stiff\<rparr>)"

definition newAngleConstraint :: "(ref \<Rightarrow> node) \<Rightarrow> ref \<Rightarrow> ref \<Rightarrow> ref \<Rightarrow> real \<Rightarrow> angleConstraint" where
  "newAngleConstraint h a b c stiff =
     (let dx = n_x (h c) - n_x (h a);
          dy = n_y (h c) - n_y (h a)
      in \<lparr>c_a = a, c_b = b, c_c = c, c_stiffness = stiff, c_restDistance = hypot dx dy\<rparr>)"

record linkOptions =
  opt_stiffness :: "real option"
  opt_restMultiplier :: "real option"

definition createLink :: "mesh \<Rightarrow> ref \<Rightarrow> ref \<Rightarrow> linkOptions \<Rightarrow> mesh" where
  "createLink m nodeA nodeB options =
     m\<lparr>links := links m @
         [newLink (heap m) nodeA nodeB
            (orDefault (opt_stiffness options) (stiffness m))
            (orDefault (opt_restMultiplier options) 0.95)]\<rparr>"

definition createAngleConstraint :: "mesh \<Rightarrow> ref \<Rightarrow> ref \<Rightarrow> ref \<Rightarrow> real \<Rightarrow> mesh" where
  "createAngleConstraint m nodeA nodeB nodeC stiff =
     m\<lparr>angleConstraints := angleConstraints m @
         [newAngleConstraint (heap m) nodeA nodeB nodeC stiff]\<rparr>"

definition createTriangle :: "mesh \<Rightarrow> real \<Rightarrow> real \<Rightarrow> real \<Rightarrow> mesh \<times> ref list" where
  "createTriangle m centerX centerY sz =
     (let vel = noNodeOptions\<lparr>opt_initialVelocity := Some (0, 2)\<rparr>;
          (m1, nodeA) = createNode m centerX centerY vel;
          (m2, nodeB) = createNode m1 (centerX - sz * 0.9) (centerY + sz) vel;
          (m3, nodeC) = createNode m2 (centerX + sz * 0.9) (centerY + sz) vel;
          lo = \<lparr>opt_stiffness = Some (stiffness m3), opt_restMultiplier = Some 1\<rparr>;
          m4 = createLink m3 nodeA nodeB lo;
          m5 = createLink m4 nodeB nodeC lo;
          m6 = createLink m5 nodeC nodeA lo;
          m7 = createAngleConstraint m6 nodeA nodeB nodeC 0.3;
          m8 = createAngleConstraint m7 nodeB nodeC nodeA 0.3;
          m9 = createAngleConstraint m8 nodeC nodeA nodeB 0.3
      in (m9, [nodeA, nodeB, nodeC]))"

subsection \<open>Structural queries\<close>




text \<open>_lineIntersection: the intersection point with its two parameters, or null.\<close>

record intersection =
  i_x :: real
  i_y :: real
  i_t :: real
  i_u :: real

definition lineIntersection ::
  "real \<Rightarrow> real \<Rightarrow> real \<Rightarrow> real \<Rightarrow> real \<Rightarrow> real \<Rightarrow> real \<Rightarrow> real \<Rightarrow> intersection option" where
  "lineIntersection p1x p1y p2x p2y p3x p3y p4x p4y =
     (let denom = (p1x - p2x) * (p3y - p4y) - (p1y - p2y) * (p3x - p4x)
      in if \<bar>denom\<bar> < 1 / 10 ^ 10 then None
         else
           (let t = ((p1x - p3x) * (p3y - p4y) - (p1y - p3y) * (p3x - p4x)) / denom;
                u = - ((p1x - p2x) * (p1y - p3y) - (p1y - p2y) * (p1x - p3x)) / denom
            in if 0 \<le> t \<and> t \<le> 1 \<and> 0 \<le> u \<and> u \<le> 1
               then Some \<lparr>i_x = p1x + t * (p2x - p1x), i_y = p1y + t * (p2y - p1y),
                          i_t = t, i_u = u\<rparr>
               else None))"



subsection \<open>The node: forces and Verlet integration\<close>

definition applyForce :: "node \<Rightarrow> real \<Rightarrow> real \<Rightarrow> node" where
  "applyForce this fx fy =
     this\<lparr>n_ax := n_ax this + fx / n_mass this, n_ay := n_ay this + fy / n_mass this\<rparr>"

definition integrate :: "node \<Rightarrow> real \<Rightarrow> real \<Rightarrow> node" where
  "integrate this dt damp =
     (if n_pinned this
      then this\<lparr>n_px := n_x this, n_py := n_y this, n_ax := 0, n_ay := 0\<rparr>
      else
        (let vx = (n_x this - n_px this) * damp;
             vy = (n_y this - n_py this) * damp;
             newX = n_x this + vx + n_ax this * dt * dt;
             newY = n_y this + vy + n_ay this * dt * dt
         in this\<lparr>n_px := n_x this, n_py := n_y this, n_x := newX, n_y := newY,
                 n_ax := 0, n_ay := 0\<rparr>))"

subsection \<open>The constraints\<close>

text \<open>
  Link.satisfy reads the four coordinates first and computes the offset (ox, oy); then it
  moves each endpoint that is not pinned; the second update reads the store the first
  one left.
\<close>

definition Link_offset :: "(ref \<Rightarrow> node) \<Rightarrow> link \<Rightarrow> real \<times> real" where
  "Link_offset h this =
     (let a_x = n_x (h (l_a this)); a_y = n_y (h (l_a this));
          b_x = n_x (h (l_b this)); b_y = n_y (h (l_b this));
          dx = b_x - a_x; dy = b_y - a_y;
          d = orElse (hypot dx dy) epsilon;
          diff = (d - l_rest this) / d;
          factor = 0.5 * l_stiffness this
      in (dx * diff * factor, dy * diff * factor))"

definition Link_satisfy :: "(ref \<Rightarrow> node) \<Rightarrow> link \<Rightarrow> (ref \<Rightarrow> node)" where
  "Link_satisfy h this =
     (let a = l_a this; b = l_b this;
          ox = fst (Link_offset h this);
          oy = snd (Link_offset h this);
          h1 = (if \<not> n_pinned (h a)
                then h(a := (h a)\<lparr>n_x := n_x (h a) + ox, n_y := n_y (h a) + oy\<rparr>) else h);
          h2 = (if \<not> n_pinned (h1 b)
                then h1(b := (h1 b)\<lparr>n_x := n_x (h1 b) - ox, n_y := n_y (h1 b) - oy\<rparr>) else h1)
      in h2)"

text \<open>AngleConstraint.satisfy moves the two outer nodes, and only when both are free.\<close>

definition AngleConstraint_satisfy :: "(ref \<Rightarrow> node) \<Rightarrow> angleConstraint \<Rightarrow> (ref \<Rightarrow> node)" where
  "AngleConstraint_satisfy h this =
     (let a = c_a this; c = c_c this;
          dx = n_x (h c) - n_x (h a);
          dy = n_y (h c) - n_y (h a);
          currentDist = orElse (hypot dx dy) epsilon;
          diff = (currentDist - c_restDistance this) / currentDist;
          correction = diff * c_stiffness this * 0.25;
          correctionX = dx * correction;
          correctionY = dy * correction
      in if \<not> n_pinned (h a) \<and> \<not> n_pinned (h c)
         then
           (let h1 = h(a := (h a)\<lparr>n_x := n_x (h a) + correctionX * 0.5\<rparr>);
                h2 = h1(a := (h1 a)\<lparr>n_y := n_y (h1 a) + correctionY * 0.5\<rparr>);
                h3 = h2(c := (h2 c)\<lparr>n_x := n_x (h2 c) - correctionX * 0.5\<rparr>);
                h4 = h3(c := (h3 c)\<lparr>n_y := n_y (h3 c) - correctionY * 0.5\<rparr>)
            in h4)
         else h)"

subsection \<open>Collisions\<close>

definition applyWallBounds :: "mesh \<Rightarrow> node \<Rightarrow> node" where
  "applyWallBounds m node =
     (if n_pinned node then node
      else
        (let n1 = (if n_x node < n_r node
                   then (let n' = node\<lparr>n_x := n_r node\<rparr>
                         in n'\<lparr>n_px := n_x n' + (n_x n' - n_px n') * - wallRestitution m\<rparr>)
                   else node);
             n2 = (if n_x n1 > bounds_width m - n_r n1
                   then (let n' = n1\<lparr>n_x := bounds_width m - n_r n1\<rparr>
                         in n'\<lparr>n_px := n_x n' + (n_x n' - n_px n') * - wallRestitution m\<rparr>)
                   else n1);
             n3 = (if n_y n2 < n_r n2
                   then (let n' = n2\<lparr>n_y := n_r n2\<rparr>
                         in n'\<lparr>n_py := n_y n' + (n_y n' - n_py n') * - wallRestitution m\<rparr>)
                   else n2)
         in n3))"

definition applyGroundCollision :: "mesh \<Rightarrow> node \<Rightarrow> node" where
  "applyGroundCollision m node =
     (if n_pinned node then node
      else
        (let penetration = n_y node - (groundY m - n_r node)
         in if penetration > 0
            then
              (let n1 = node\<lparr>n_y := groundY m - n_r node\<rparr>;
                   vx = n_x n1 - n_px n1;
                   vy = n_y n1 - n_py n1
               in if vy > 0
                  then
                    (let vnAfter = - vy * groundRestitution m;
                         vtAfter = vx * friction m
                     in n1\<lparr>n_px := n_x n1 - vtAfter, n_py := n_y n1 - vnAfter\<rparr>)
                  else n1)
            else node))"

subsection \<open>Crossing prevention\<close>

definition pushNodeFromPoint :: "node \<Rightarrow> real \<Rightarrow> real \<Rightarrow> real \<Rightarrow> node" where
  "pushNodeFromPoint node px py strength =
     (if n_pinned node then node
      else
        (let dx = n_x node - px;
             dy = n_y node - py;
             dist = orElse (hypot dx dy) epsilon;
             n1 = node\<lparr>n_x := n_x node + (dx / dist) * strength\<rparr>
         in n1\<lparr>n_y := n_y n1 + (dy / dist) * strength\<rparr>))"

definition pushLinksApart ::
  "mesh \<Rightarrow> (ref \<Rightarrow> node) \<Rightarrow> link \<Rightarrow> link \<Rightarrow> intersection \<Rightarrow> (ref \<Rightarrow> node)" where
  "pushLinksApart m h link1 link2 isect =
     (let ix = i_x isect; iy = i_y isect;
          minDistToNode =
            min (hypot (n_x (h (l_a link1)) - ix) (n_y (h (l_a link1)) - iy))
             (min (hypot (n_x (h (l_b link1)) - ix) (n_y (h (l_b link1)) - iy))
               (min (hypot (n_x (h (l_a link2)) - ix) (n_y (h (l_a link2)) - iy))
                    (hypot (n_x (h (l_b link2)) - ix) (n_y (h (l_b link2)) - iy))))
      in if minDistToNode > defaultNodeRadius m
         then
           (let pushStrength = 0.3;
                h1 = h(l_a link1 := pushNodeFromPoint (h (l_a link1)) ix iy pushStrength);
                h2 = h1(l_b link1 := pushNodeFromPoint (h1 (l_b link1)) ix iy pushStrength);
                h3 = h2(l_a link2 := pushNodeFromPoint (h2 (l_a link2)) ix iy pushStrength);
                h4 = h3(l_b link2 := pushNodeFromPoint (h3 (l_b link2)) ix iy pushStrength)
            in h4)
         else h)"

text \<open>The body of the two nested loops of _preventLinkCrossings, at indices i < j.\<close>

definition crossingPair :: "mesh \<Rightarrow> nat \<Rightarrow> nat \<Rightarrow> (ref \<Rightarrow> node) \<Rightarrow> (ref \<Rightarrow> node)" where
  "crossingPair m i j h =
     (let link1 = links m ! i; link2 = links m ! j
      in if l_a link1 = l_a link2 \<or> l_a link1 = l_b link2 \<or>
            l_b link1 = l_a link2 \<or> l_b link1 = l_b link2
         then h
         else
           (case lineIntersection
                   (n_x (h (l_a link1))) (n_y (h (l_a link1)))
                   (n_x (h (l_b link1))) (n_y (h (l_b link1)))
                   (n_x (h (l_a link2))) (n_y (h (l_a link2)))
                   (n_x (h (l_b link2))) (n_y (h (l_b link2))) of
              None \<Rightarrow> h
            | Some isect \<Rightarrow> pushLinksApart m h link1 link2 isect))"

definition preventLinkCrossings :: "mesh \<Rightarrow> (ref \<Rightarrow> node) \<Rightarrow> (ref \<Rightarrow> node)" where
  "preventLinkCrossings m h =
     fold (\<lambda>i. fold (\<lambda>j. crossingPair m i j) [Suc i..<length (links m)])
       [0..<length (links m)] h"

subsection \<open>The simulation step\<close>

text \<open>
  \<open>for (const node of this.nodes) ...\<close> with a body that calls one method on the
  node: the method runs on the node objects in the order of the array.
\<close>

fun forEachNode :: "(node \<Rightarrow> node) \<Rightarrow> ref list \<Rightarrow> (ref \<Rightarrow> node) \<Rightarrow> (ref \<Rightarrow> node)" where
  "forEachNode f [] h = h"
| "forEachNode f (node # rest) h = forEachNode f rest (h(node := f (h node)))"

definition gravityPhase :: "mesh \<Rightarrow> mesh" where
  "gravityPhase m =
     m\<lparr>heap := forEachNode
                 (\<lambda>node. applyForce node (gravity_x m * n_mass node) (gravity_y m * n_mass node))
                 (nodes m) (heap m)\<rparr>"

definition integratePhase :: "mesh \<Rightarrow> real \<Rightarrow> mesh" where
  "integratePhase m deltaTime =
     m\<lparr>heap := forEachNode (\<lambda>node. integrate node deltaTime (damping m))
                 (nodes m) (heap m)\<rparr>"

text \<open>One pass of the body of the constraint-solving loop.\<close>

definition solverIteration :: "mesh \<Rightarrow> mesh" where
  "solverIteration m =
     (let h1 = forEachNode (applyWallBounds m) (nodes m) (heap m);
          h2 = forEachNode (applyGroundCollision m) (nodes m) h1;
          h3 = preventLinkCrossings m h2;
          h4 = fold (\<lambda>l h. Link_satisfy h l) (links m) h3;
          h5 = fold (\<lambda>c h. AngleConstraint_satisfy h c) (angleConstraints m) h4;
          h6 = preventLinkCrossings m h5
      in m\<lparr>heap := h6\<rparr>)"

lemma solverIterations_solverIteration [simp]:
  "solverIterations (solverIteration m) = solverIterations m"
  by (simp add: solverIteration_def Let_def)

text \<open>for (let iteration = 0; iteration < this.solverIterations; iteration++)\<close>

function solverLoop :: "mesh \<Rightarrow> nat \<Rightarrow> mesh" where
  "solverLoop m iteration =
     (if real iteration < solverIterations m
      then solverLoop (solverIteration m) (Suc iteration)
      else m)"
  by pat_completeness auto
termination
proof (relation "measure (\<lambda>(m, iteration). nat \<lceil>solverIterations m\<rceil> - iteration)")
  fix m :: mesh and iteration :: nat
  assume "real iteration < solverIterations m"
  then have "iteration < nat \<lceil>solverIterations m\<rceil>"
    by linarith
  then show "((solverIteration m, Suc iteration), (m, iteration))
      \<in> measure (\<lambda>(m, iteration). nat \<lceil>solverIterations m\<rceil> - iteration)"
    by simp
qed simp

declare solverLoop.simps [simp del]

definition step :: "mesh \<Rightarrow> real \<Rightarrow> mesh" where
  "step m deltaTime = solverLoop (integratePhase (gravityPhase m) deltaTime) 0"

text \<open>A sequence of calls of step, one for each time step of the list.\<close>

definition steps :: "mesh \<Rightarrow> real list \<Rightarrow> mesh" where
  "steps m dts = fold (\<lambda>dt m. step m dt) dts m"

subsection \<open>Example meshes\<close>

definition defaultConfig :: config where
  "defaultConfig = \<lparr>cfg_gravity = None, cfg_damping = None, cfg_solverIterations = None,
     cfg_stiffness = None, cfg_wallRestitution = None, cfg_groundRestitution = None,
     cfg_friction = None, cfg_bounds = None, cfg_groundY = None,
     cfg_defaultNodeRadius = None, cfg_defaultNodeMass = None\<rparr>"

definition noLinkOptions :: linkOptions where
  "noLinkOptions = \<lparr>opt_stiffness = None, opt_restMultiplier = None\<rparr>"

text \<open>A square of four nodes with one diagonal, built through the public operations.\<close>

definition squareMesh :: mesh where
  "squareMesh =
     (let (m1, n0) = createNode (newMesh defaultConfig) 100 100 noNodeOptions;
          (m2, n1) = createNode m1 200 100 noNodeOptions;
          (m3, n2) = createNode m2 200 200 noNodeOptions;
          (m4, n3) = createNode m3 100 200 noNodeOptions;
          m5 = createLink m4 n0 n1 noLinkOptions;
          m6 = createLink m5 n1 n2 noLinkOptions;
          m7 = createLink m6 n2 n3 noLinkOptions;
          m8 = createLink m7 n3 n0 noLinkOptions;
          m9 = createLink m8 n0 n2 noLinkOptions;
          m10 = createAngleConstraint m9 n0 n1 n2 0.8
      in createAngleConstraint m10 n2 n3 n0 0.8)"

text \<open>One pinned node created with an initial velocity.\<close>

definition pinnedMoving :: mesh where
  "pinnedMoving =
     fst (createNode (newMesh defaultConfig) 100 100
            (noNodeOptions\<lparr>opt_pinned := Some True, opt_initialVelocity := Some (0, 2)\<rparr>))"

text \<open>Two nodes 200 apart, joined by a link of rest length 100 and stiffness 1.\<close>

definition stretchedMesh :: mesh where
  "stretchedMesh =
     (let (m1, n0) = createNode (newMesh defaultConfig) 100 100 noNodeOptions;
          (m2, n1) = createNode m1 300 100 noNodeOptions
      in createLink m2 n0 n1 \<lparr>opt_stiffness = Some 1, opt_restMultiplier = Some 0.5\<rparr>)"


subsection \<open>Predicates of the properties\<close>

definition refsValid :: "mesh \<Rightarrow> bool" where
  "refsValid m \<longleftrightarrow>
     list_all (\<lambda>l. l_a l \<in> set (nodes m) \<and> l_b l \<in> set (nodes m)) (links m) \<and>
     list_all (\<lambda>c. c_a c \<in> set (nodes m) \<and> c_b c \<in> set (nodes m) \<and> c_c c \<in> set (nodes m))
       (angleConstraints m)"

definition orphaned :: "mesh \<Rightarrow> mesh \<Rightarrow> ref set" where
  "orphaned m0 m =
     {v \<in> set (nodes m). connectionCount m v < 2 \<and> 2 \<le> connectionCount m0 v}"

definition frame :: "(ref \<Rightarrow> node) \<Rightarrow> (ref \<Rightarrow> node) \<Rightarrow> bool" where
  "frame h h' \<longleftrightarrow>
     (\<forall>r. n_pinned (h' r) = n_pinned (h r) \<and> n_mass (h' r) = n_mass (h r) \<and>
          (n_pinned (h r) \<longrightarrow> h' r = h r))"

definition samePlace :: "node \<Rightarrow> node \<Rightarrow> bool" where
  "samePlace n n' \<longleftrightarrow>
     n_x n' = n_x n \<and> n_y n' = n_y n \<and> n_px n' = n_px n \<and> n_py n' = n_py n \<and>
     n_pinned n' = n_pinned n \<and> n_mass n' = n_mass n"

text \<open>What integrate leaves of a pinned node.\<close>

definition pinnedAt :: "real \<Rightarrow> real \<Rightarrow> node \<Rightarrow> bool" where
  "pinnedAt x y n \<longleftrightarrow> n_pinned n \<and> n_x n = x \<and> n_y n = y"

definition restingAt :: "real \<Rightarrow> real \<Rightarrow> node \<Rightarrow> bool" where
  "restingAt x y n \<longleftrightarrow> n_px n = x \<and> n_py n = y"

definition pinnedResting :: "real \<Rightarrow> real \<Rightarrow> node \<Rightarrow> bool" where
  "pinnedResting x y n \<longleftrightarrow> pinnedAt x y n \<and> restingAt x y n"

text \<open>The distance between the two endpoints of a link.\<close>

definition separation :: "(ref \<Rightarrow> node) \<Rightarrow> link \<Rightarrow> real" where
  "separation h l =
     hypot (n_x (h (l_b l)) - n_x (h (l_a l))) (n_y (h (l_b l)) - n_y (h (l_a l)))"

text \<open>
  What the public operations keep true of a mesh: no node object is in the node array
  twice, every node of the array is allocated and has a mass other than 0, and the
  default mass is not 0.
\<close>

definition meshInv :: "mesh \<Rightarrow> bool" where
  "meshInv m \<longleftrightarrow>
     distinct (nodes m) \<and>
     list_all (\<lambda>node. node < nextRef m \<and> n_mass (heap m node) \<noteq> 0) (nodes m) \<and>
     defaultNodeMass m \<noteq> 0"

section \<open>The Euclidean norm\<close>

lemma hypot_zero [simp]: "hypot 0 0 = 0"
  by (simp add: hypot_def)

lemma hypot_axis [simp]: "hypot a 0 = \<bar>a\<bar>" "hypot 0 a = \<bar>a\<bar>"
  by (simp_all add: hypot_def)

lemma hypot_nonneg: "0 \<le> hypot a b"
  by (simp add: hypot_def)

lemma hypot_scale: "0 \<le> c \<Longrightarrow> hypot (c * a) (c * b) = c * hypot a b"
proof -
  assume c: "0 \<le> c"
  have "(c * a) * (c * a) + (c * b) * (c * b) = c\<^sup>2 * (a * a + b * b)"
    by (simp add: power2_eq_square algebra_simps)
  then have "hypot (c * a) (c * b) = sqrt (c\<^sup>2 * (a * a + b * b))"
    by (simp add: hypot_def)
  also have "\<dots> = \<bar>c\<bar> * sqrt (a * a + b * b)"
    by (simp add: real_sqrt_mult)
  finally show ?thesis using c by (simp add: hypot_def)
qed

section \<open>The example meshes, evaluated\<close>

lemmas mesh_eval = createNode_def createLink_def createAngleConstraint_def
  newMesh_def defaultConfig_def Let_def newLink_def newAngleConstraint_def noNodeOptions_def
  noLinkOptions_def newNode_def orDefault_def detachNode_def connectionCount_def splice1_def

lemma squareMesh_nodes: "nodes squareMesh = [0, 1, 2, 3]"
  by (simp add: squareMesh_def mesh_eval)

lemma squareMesh_links:
  "map (\<lambda>l. (l_a l, l_b l)) (links squareMesh) = [(0, 1), (1, 2), (2, 3), (3, 0), (0, 2)]"
  by (simp add: squareMesh_def mesh_eval)

lemma squareMesh_angles:
  "map (\<lambda>c. (c_a c, c_b c, c_c c)) (angleConstraints squareMesh) = [(0, 1, 2), (2, 3, 0)]"
  by (simp add: squareMesh_def mesh_eval)

lemma squareMesh_remove3:
  "nodes (removeNode squareMesh 3) = [0, 1, 2]"
  "map (\<lambda>l. (l_a l, l_b l)) (links (removeNode squareMesh 3)) = [(0, 1), (1, 2), (0, 2)]"
  "map (\<lambda>c. (c_a c, c_b c, c_c c)) (angleConstraints (removeNode squareMesh 3)) = [(0, 1, 2)]"
  by (simp_all add: squareMesh_def mesh_eval)

lemma squareMesh_remove0: "nodes (removeNode squareMesh 0) = []"
  by (simp add: squareMesh_def mesh_eval)

text \<open>
  Removing one node of the triangle of createTriangle leaves its two neighbours with one
  link each: the cascade removes them too.
\<close>

lemma triangle_remove:
  "nodes (fst (createTriangle (newMesh defaultConfig) 400 180 70)) = [0, 1, 2]"
  "nodes (removeNode (fst (createTriangle (newMesh defaultConfig) 400 180 70)) 0) = []"
  "links (removeNode (fst (createTriangle (newMesh defaultConfig) 400 180 70)) 0) = []"
  by (simp_all add: createTriangle_def mesh_eval)

lemma pinnedMoving_node:
  "nodes pinnedMoving = [0]"
  "heap pinnedMoving 0 = \<lparr>n_x = 100, n_y = 100, n_px = 100, n_py = 98, n_ax = 0, n_ay = 0,
      n_r = 8, n_mass = 15, n_pinned = True\<rparr>"
  by (simp_all add: pinnedMoving_def mesh_eval)



lemma stretchedMesh_eval:
  "links stretchedMesh = [\<lparr>l_a = 0, l_b = 1, l_rest = 100, l_stiffness = 1\<rparr>]"
  "heap stretchedMesh 0 = newNode 100 100 8 15 False"
  "heap stretchedMesh (Suc 0) = newNode 300 100 8 15 False"
  by (simp_all add: stretchedMesh_def mesh_eval)


section \<open>Properties of removeNode\<close>

lemma indexOf_splice1_remove1:
  "(case indexOf xs v of None \<Rightarrow> xs | Some i \<Rightarrow> splice1 xs i) = remove1 v xs"
  by (induction xs) (auto simp: splice1_def split: option.splits)

lemma nodes_detachNode: "nodes (detachNode m node) = remove1 node (nodes m)"
  using indexOf_splice1_remove1 [of "nodes m" node]
  by (auto simp: detachNode_def Let_def split: option.splits)

lemma angleConstraints_detachNode:
  "angleConstraints (detachNode m node) =
     filter (\<lambda>c. c_a c \<noteq> node \<and> c_b c \<noteq> node \<and> c_c c \<noteq> node) (angleConstraints m)"
  by (simp add: detachNode_def Let_def split: option.split)

lemma heap_detachNode: "heap (detachNode m node) = heap m"
  by (simp add: detachNode_def Let_def split: option.split)

lemma refsValid_detachNode: "refsValid m \<Longrightarrow> refsValid (detachNode m node)"
  by (auto simp: refsValid_def list_all_iff links_detachNode nodes_detachNode
      angleConstraints_detachNode)

lemma refsValid_removeNode_aux:
  "refsValid m \<longrightarrow> refsValid (removeNode m node)"
  "refsValid m \<longrightarrow> refsValid (removeOrphans m cs)"
  by (induction m node and m cs rule: removeNode_removeOrphans.induct)
     (simp_all add: refsValid_detachNode)

text \<open>
  Claim C10. removeNode keeps the references valid: if every link has both endpoints, and
  every angle constraint its three nodes, in the node array before the call, then the
  same holds of the links and angle constraints that remain when removeNode returns,
  cascaded removals included.
\<close>

theorem removeNode_refsValid:
  "refsValid m \<Longrightarrow> refsValid (removeNode m node)"
  using refsValid_removeNode_aux(1) [of m node] by simp

theorem removeNode_refsValid_witness:
  "refsValid squareMesh \<and> refsValid (removeNode squareMesh 3) \<and>
   nodes (removeNode squareMesh 3) = [0, 1, 2]"
proof -
  have "list_all (\<lambda>p. fst p \<in> set (nodes squareMesh) \<and> snd p \<in> set (nodes squareMesh))
          (map (\<lambda>l. (l_a l, l_b l)) (links squareMesh))"
    unfolding squareMesh_links squareMesh_nodes by simp
  moreover have "list_all (\<lambda>p. fst p \<in> set (nodes squareMesh) \<and>
            fst (snd p) \<in> set (nodes squareMesh) \<and> snd (snd p) \<in> set (nodes squareMesh))
          (map (\<lambda>c. (c_a c, c_b c, c_c c)) (angleConstraints squareMesh))"
    unfolding squareMesh_angles squareMesh_nodes by simp
  ultimately have h: "refsValid squareMesh"
    by (simp add: refsValid_def list_all_iff)
  from h removeNode_refsValid [OF h, of 3] squareMesh_remove3(1) show ?thesis by simp
qed

lemma indexOf_None_iff: "indexOf xs v = None \<longleftrightarrow> v \<notin> set xs"
  by (induction xs) (auto split: option.splits)

lemma detachNode_absent:
  assumes "node \<notin> set (nodes m)"
    and "\<forall>l\<in>set (links m). l_a l \<noteq> node \<and> l_b l \<noteq> node"
    and "\<forall>c\<in>set (angleConstraints m). c_a c \<noteq> node \<and> c_b c \<noteq> node \<and> c_c c \<noteq> node"
  shows "detachNode m node = m"
proof -
  have "indexOf (nodes m) node = None"
    using assms(1) by (simp add: indexOf_None_iff)
  then show ?thesis using assms(2,3)
    by (simp add: detachNode_def Let_def filter_id_conv)
qed

lemma removeNode_absent:
  assumes "node \<notin> set (nodes m)"
    and "\<forall>l\<in>set (links m). l_a l \<noteq> node \<and> l_b l \<noteq> node"
    and "\<forall>c\<in>set (angleConstraints m). c_a c \<noteq> node \<and> c_b c \<noteq> node \<and> c_c c \<noteq> node"
  shows "removeNode m node = m"
proof -
  have "connectedNodes (links m) node = []"
    using assms(2) by (simp add: connectedNodes_Nil_iff)
  then show ?thesis
    using detachNode_absent [OF assms] by simp
qed

lemma removeNode_subset:
  "set (links (removeNode m node)) \<subseteq> set (links m) \<and>
   set (angleConstraints (removeNode m node)) \<subseteq> set (angleConstraints m) \<and>
   set (nodes (removeNode m node)) \<subseteq> set (nodes m)"
  "set (links (removeOrphans m cs)) \<subseteq> set (links m) \<and>
   set (angleConstraints (removeOrphans m cs)) \<subseteq> set (angleConstraints m) \<and>
   set (nodes (removeOrphans m cs)) \<subseteq> set (nodes m)"
proof (induction m node and m cs rule: removeNode_removeOrphans.induct)
  case (1 m node)
  have "set (links (detachNode m node)) \<subseteq> set (links m)"
    "set (angleConstraints (detachNode m node)) \<subseteq> set (angleConstraints m)"
    "set (nodes (detachNode m node)) \<subseteq> set (nodes m)"
    using set_remove1_subset [of node "nodes m"]
    by (auto simp: links_detachNode angleConstraints_detachNode nodes_detachNode)
  with 1 show ?case by auto
next
  case (2 m)
  show ?case by simp
next
  case (3 m connectedNode rest)
  then show ?case by (cases "connectionCount m connectedNode < 2") auto
qed

lemma distinct_removeNode:
  "distinct (nodes m) \<longrightarrow> distinct (nodes (removeNode m node))"
  "distinct (nodes m) \<longrightarrow> distinct (nodes (removeOrphans m cs))"
  by (induction m node and m cs rule: removeNode_removeOrphans.induct)
     (simp_all add: nodes_detachNode)

text \<open>
  Claim C3. Calling removeNode a second time with the same node changes nothing: the
  mesh after the second call, with its nodes, links and angle constraints, is the mesh
  after the first call. The model is a total function: no call fails.
\<close>

theorem removeNode_twice:
  assumes "distinct (nodes m)"
  shows "removeNode (removeNode m node) node = removeNode m node"
proof -
  let ?d = "detachNode m node"
  let ?r = "removeNode m node"
  have r: "?r = removeOrphans ?d (connectedNodes (links m) node)" by simp
  have "node \<notin> set (nodes ?d)"
    using assms by (simp add: nodes_detachNode)
  moreover have "\<forall>l\<in>set (links ?d). l_a l \<noteq> node \<and> l_b l \<noteq> node"
    by (simp add: links_detachNode)
  moreover have "\<forall>c\<in>set (angleConstraints ?d). c_a c \<noteq> node \<and> c_b c \<noteq> node \<and> c_c c \<noteq> node"
    by (simp add: angleConstraints_detachNode)
  ultimately have "node \<notin> set (nodes ?r)"
    "\<forall>l\<in>set (links ?r). l_a l \<noteq> node \<and> l_b l \<noteq> node"
    "\<forall>c\<in>set (angleConstraints ?r). c_a c \<noteq> node \<and> c_b c \<noteq> node \<and> c_c c \<noteq> node"
    using removeNode_subset(2) [of ?d "connectedNodes (links m) node"] unfolding r
    by blast+
  then show ?thesis by (rule removeNode_absent)
qed

theorem removeNode_twice_witness:
  "distinct (nodes squareMesh) \<and>
   removeNode (removeNode squareMesh 0) 0 = removeNode squareMesh 0 \<and>
   nodes (removeNode squareMesh 0) = []"
proof -
  have h: "distinct (nodes squareMesh)"
    unfolding squareMesh_nodes by simp
  from h removeNode_twice [OF h, of 0] squareMesh_remove0 show ?thesis by simp
qed

lemma set_connectedNodes:
  "set (connectedNodes ls node) =
     {l_b l | l. l \<in> set ls \<and> l_a l = node} \<union>
     {l_a l | l. l \<in> set ls \<and> l_a l \<noteq> node \<and> l_b l = node}"
  by (induction ls) auto

lemma connectionCount_detachNode:
  assumes "v \<notin> set (connectedNodes (links m) node)" and "v \<noteq> node"
  shows "connectionCount (detachNode m node) v = connectionCount m v"
proof -
  have "\<forall>l\<in>set (links m). (l_a l = v \<or> l_b l = v) \<longrightarrow> l_a l \<noteq> node \<and> l_b l \<noteq> node"
    using assms by (auto simp: set_connectedNodes)
  then have "filter (\<lambda>l. l_a l = v \<or> l_b l = v)
               (filter (\<lambda>l. l_a l \<noteq> node \<and> l_b l \<noteq> node) (links m)) =
             filter (\<lambda>l. l_a l = v \<or> l_b l = v) (links m)"
    by (auto intro: filter_cong)
  then show ?thesis
    by (simp add: connectionCount_def links_detachNode)
qed

lemma orphaned_detachNode:
  assumes "distinct (nodes m)" and "orphaned m0 m \<subseteq> insert node S"
  shows "orphaned m0 (detachNode m node) \<subseteq> set (connectedNodes (links m) node) \<union> S"
proof
  fix v assume v: "v \<in> orphaned m0 (detachNode m node)"
  then have vn: "v \<in> set (remove1 node (nodes m))"
    by (simp add: orphaned_def nodes_detachNode)
  with assms(1) have "v \<noteq> node" "v \<in> set (nodes m)" by auto
  show "v \<in> set (connectedNodes (links m) node) \<union> S"
  proof (cases "v \<in> set (connectedNodes (links m) node)")
    case False
    from False \<open>v \<noteq> node\<close>
    have "connectionCount (detachNode m node) v = connectionCount m v"
      by (rule connectionCount_detachNode)
    with v \<open>v \<in> set (nodes m)\<close> have "v \<in> orphaned m0 m"
      by (simp add: orphaned_def)
    with assms(2) \<open>v \<noteq> node\<close> show ?thesis by auto
  qed simp
qed

lemma orphaned_removeNode_aux:
  "distinct (nodes m) \<longrightarrow> (\<forall>S. orphaned m0 m \<subseteq> insert node S \<longrightarrow>
      orphaned m0 (removeNode m node) \<subseteq> S)"
  "distinct (nodes m) \<longrightarrow> (\<forall>S. orphaned m0 m \<subseteq> set cs \<union> S \<longrightarrow>
      orphaned m0 (removeOrphans m cs) \<subseteq> S)"
proof (induction m node and m cs rule: removeNode_removeOrphans.induct)
  case (1 m node)
  show ?case
  proof (intro impI allI)
    fix S assume d: "distinct (nodes m)" and s: "orphaned m0 m \<subseteq> insert node S"
    have "distinct (nodes (detachNode m node))"
      using d by (simp add: nodes_detachNode)
    moreover have "orphaned m0 (detachNode m node) \<subseteq> set (connectedNodes (links m) node) \<union> S"
      using d s by (rule orphaned_detachNode)
    ultimately show "orphaned m0 (removeNode m node) \<subseteq> S"
      using 1 by simp
  qed
next
  case (2 m)
  show ?case by simp
next
  case (3 m c rest)
  show ?case
  proof (intro impI allI)
    fix S assume d: "distinct (nodes m)" and s: "orphaned m0 m \<subseteq> set (c # rest) \<union> S"
    show "orphaned m0 (removeOrphans m (c # rest)) \<subseteq> S"
    proof (cases "connectionCount m c < 2")
      case True
      from s have "orphaned m0 m \<subseteq> insert c (set rest \<union> S)" by auto
      with 3(1) True d have "orphaned m0 (removeNode m c) \<subseteq> set rest \<union> S" by blast
      moreover have "distinct (nodes (removeNode m c))"
        using d distinct_removeNode(1) by blast
      ultimately show ?thesis using 3(2) True by simp
    next
      case False
      then have "c \<notin> orphaned m0 m" by (simp add: orphaned_def)
      with s have "orphaned m0 m \<subseteq> set rest \<union> S" by auto
      with 3(2) False d show ?thesis by simp
    qed
  qed
qed

text \<open>
  Claim C2. When removeNode returns, cascaded removals included, every node still in the
  node array has at least two links, or had fewer than two links before the call; so if
  every node had at least two links before the call, every remaining node has at least
  two links after it.
\<close>

theorem removeNode_cascade:
  assumes "distinct (nodes m)"
  shows "(\<forall>v\<in>set (nodes (removeNode m n)).
            2 \<le> connectionCount (removeNode m n) v \<or> connectionCount m v < 2) \<and>
         ((\<forall>v\<in>set (nodes m). 2 \<le> connectionCount m v) \<longrightarrow>
          (\<forall>v\<in>set (nodes (removeNode m n)). 2 \<le> connectionCount (removeNode m n) v))"
proof -
  have "orphaned m m = {}" by (auto simp: orphaned_def)
  then have "orphaned m m \<subseteq> insert n {}" by simp
  with assms orphaned_removeNode_aux(1) [of m m n] have e: "orphaned m (removeNode m n) \<subseteq> {}"
    by blast
  have sub: "set (nodes (removeNode m n)) \<subseteq> set (nodes m)"
    using removeNode_subset(1) [of m n] by simp
  have 1: "\<forall>v\<in>set (nodes (removeNode m n)).
            2 \<le> connectionCount (removeNode m n) v \<or> connectionCount m v < 2"
  proof
    fix v assume v: "v \<in> set (nodes (removeNode m n))"
    from e have "v \<notin> orphaned m (removeNode m n)" by blast
    with v show "2 \<le> connectionCount (removeNode m n) v \<or> connectionCount m v < 2"
      unfolding orphaned_def by simp linarith
  qed
  have 2: "\<forall>v\<in>set (nodes (removeNode m n)). 2 \<le> connectionCount (removeNode m n) v"
    if h: "\<forall>v\<in>set (nodes m). 2 \<le> connectionCount m v"
  proof
    fix v assume v: "v \<in> set (nodes (removeNode m n))"
    with sub h have "2 \<le> connectionCount m v" by blast
    with 1 v show "2 \<le> connectionCount (removeNode m n) v" by fastforce
  qed
  from 1 2 show ?thesis by blast
qed

theorem removeNode_cascade_witness:
  "distinct (nodes squareMesh) \<and>
   map (connectionCount squareMesh) (nodes squareMesh) = [3, 2, 3, 2] \<and>
   nodes (removeNode squareMesh 3) = [0, 1, 2] \<and>
   2 \<le> connectionCount (removeNode squareMesh 3) 0 \<and>
   2 \<le> connectionCount (removeNode squareMesh 3) 1 \<and>
   2 \<le> connectionCount (removeNode squareMesh 3) 2"
proof -
  have h: "distinct (nodes squareMesh)"
    unfolding squareMesh_nodes by simp
  have c: "map (connectionCount squareMesh) (nodes squareMesh) = [3, 2, 3, 2]"
    by (simp add: squareMesh_def mesh_eval)
  then have "\<forall>v\<in>set (nodes squareMesh). 2 \<le> connectionCount squareMesh v"
    unfolding squareMesh_nodes by simp
  with removeNode_cascade [OF h, of 3]
  have "\<forall>v\<in>set (nodes (removeNode squareMesh 3)). 2 \<le> connectionCount (removeNode squareMesh 3) v"
    by blast
  with h c squareMesh_remove3(1) show ?thesis by simp
qed

section \<open>Properties of the simulation step\<close>

lemma frame_refl: "frame h h"
  by (simp add: frame_def)

lemma frame_pinned: "frame h h' \<Longrightarrow> n_pinned (h r) \<Longrightarrow> h' r = h r"
  by (simp add: frame_def)

lemma frame_trans: "frame h h1 \<Longrightarrow> frame h1 h2 \<Longrightarrow> frame h h2"
  by (simp add: frame_def)

lemma frame_fold:
  assumes "\<And>x h. frame h (f x h)"
  shows "frame h (fold f xs h)"
proof (induction xs arbitrary: h)
  case Nil
  show ?case by (simp add: frame_refl)
next
  case (Cons x xs)
  have "frame h (f x h)" by (rule assms)
  moreover have "frame (f x h) (fold f xs (f x h))" by (rule Cons.IH)
  ultimately show ?case by (simp add: frame_trans)
qed

lemma frame_upd:
  assumes "n_pinned (f (h r)) = n_pinned (h r)" "n_mass (f (h r)) = n_mass (h r)"
    "n_pinned (h r) \<Longrightarrow> f (h r) = h r"
  shows "frame h (h(r := f (h r)))"
  using assms by (simp add: frame_def)

lemma applyWallBounds_static:
  "n_pinned (applyWallBounds m n) = n_pinned n" "n_mass (applyWallBounds m n) = n_mass n"
  "n_pinned n \<Longrightarrow> applyWallBounds m n = n"
  by (simp_all add: applyWallBounds_def Let_def)

lemma applyGroundCollision_static:
  "n_pinned (applyGroundCollision m n) = n_pinned n"
  "n_mass (applyGroundCollision m n) = n_mass n"
  "n_pinned n \<Longrightarrow> applyGroundCollision m n = n"
  by (simp_all add: applyGroundCollision_def Let_def)

lemma pushNodeFromPoint_static:
  "n_pinned (pushNodeFromPoint n px py s) = n_pinned n"
  "n_mass (pushNodeFromPoint n px py s) = n_mass n"
  "n_pinned n \<Longrightarrow> pushNodeFromPoint n px py s = n"
  by (simp_all add: pushNodeFromPoint_def Let_def)

lemma frame_push: "frame h (h(r := pushNodeFromPoint (h r) px py s))"
  by (rule frame_upd) (simp_all add: pushNodeFromPoint_static)

lemma frame_pushLinksApart: "frame h (pushLinksApart m h link1 link2 isect)"
proof -
  let ?ix = "i_x isect" and ?iy = "i_y isect"
  let ?h1 = "h(l_a link1 := pushNodeFromPoint (h (l_a link1)) ?ix ?iy 0.3)"
  let ?h2 = "?h1(l_b link1 := pushNodeFromPoint (?h1 (l_b link1)) ?ix ?iy 0.3)"
  let ?h3 = "?h2(l_a link2 := pushNodeFromPoint (?h2 (l_a link2)) ?ix ?iy 0.3)"
  let ?h4 = "?h3(l_b link2 := pushNodeFromPoint (?h3 (l_b link2)) ?ix ?iy 0.3)"
  have "frame h ?h1" by (rule frame_push)
  moreover have "frame ?h1 ?h2" by (rule frame_push)
  moreover have "frame ?h2 ?h3" by (rule frame_push)
  moreover have "frame ?h3 ?h4" by (rule frame_push)
  ultimately have "frame h ?h4" by (blast intro: frame_trans)
  moreover have "pushLinksApart m h link1 link2 isect = ?h4 \<or>
                 pushLinksApart m h link1 link2 isect = h"
    unfolding pushLinksApart_def Let_def by (simp only: split: if_split) blast
  ultimately show ?thesis
    using frame_refl [of h] by auto
qed

lemma frame_crossingPair: "frame h (crossingPair m i j h)"
  by (simp add: crossingPair_def Let_def frame_refl frame_pushLinksApart split: option.split)

lemma frame_preventLinkCrossings: "frame h (preventLinkCrossings m h)"
  unfolding preventLinkCrossings_def
  by (intro frame_fold frame_crossingPair)

lemma frame_Link_satisfy: "frame h (Link_satisfy h l)"
  by (simp add: Link_satisfy_def Let_def frame_def)

lemma frame_AngleConstraint_satisfy: "frame h (AngleConstraint_satisfy h c)"
  by (simp add: AngleConstraint_satisfy_def Let_def frame_def)

lemma forEachNode_notin:
  "r \<notin> set xs \<Longrightarrow> forEachNode g xs h r = h r"
  by (induction xs arbitrary: h) auto

lemma forEachNode_inv:
  assumes "\<And>n. P n \<Longrightarrow> P (g n)"
  shows "P (h r) \<Longrightarrow> P (forEachNode g xs h r)"
proof (induction xs arbitrary: h)
  case Nil
  then show ?case by simp
next
  case (Cons x xs)
  have "P ((h(x := g (h x))) r)"
    using Cons.prems assms by (cases "r = x") simp_all
  then show ?case using Cons.IH by simp
qed

lemma forEachNode_in:
  assumes "\<And>n. P n \<Longrightarrow> P (g n) \<and> Q (g n)" and "\<And>n. Q n \<Longrightarrow> P n"
  shows "P (h r) \<Longrightarrow> r \<in> set xs \<Longrightarrow> Q (forEachNode g xs h r)"
proof (induction xs arbitrary: h)
  case Nil
  then show ?case by simp
next
  case (Cons x xs)
  show ?case
  proof (cases "r = x")
    case True
    with Cons.prems(1) assms(1) have "Q ((h(x := g (h x))) r)" by simp
    then have "Q (forEachNode g xs (h(x := g (h x))) r)"
      by (rule forEachNode_inv [where P = Q, rotated]) (use assms in blast)
    then show ?thesis by simp
  next
    case False
    with Cons.prems have "P ((h(x := g (h x))) r)" "r \<in> set xs" by simp_all
    then show ?thesis using Cons.IH by simp
  qed
qed


lemma frame_forEachNode:
  assumes "\<And>n. n_pinned (f n) = n_pinned n" "\<And>n. n_mass (f n) = n_mass n"
    "\<And>n. n_pinned n \<Longrightarrow> f n = n"
  shows "frame h (forEachNode f xs h)"
proof (induction xs arbitrary: h)
  case Nil
  show ?case by (simp add: frame_refl)
next
  case (Cons x xs)
  have "frame h (h(x := f (h x)))" by (rule frame_upd) (simp_all add: assms)
  moreover have "frame (h(x := f (h x))) (forEachNode f xs (h(x := f (h x))))" by (rule Cons.IH)
  ultimately show ?case by (simp add: frame_trans)
qed

lemma frame_solverIteration: "frame (heap m) (heap (solverIteration m))"
proof -
  let ?h1 = "forEachNode (applyWallBounds m) (nodes m) (heap m)"
  let ?h2 = "forEachNode (applyGroundCollision m) (nodes m) ?h1"
  let ?h3 = "preventLinkCrossings m ?h2"
  let ?h4 = "fold (\<lambda>l h. Link_satisfy h l) (links m) ?h3"
  let ?h5 = "fold (\<lambda>c h. AngleConstraint_satisfy h c) (angleConstraints m) ?h4"
  let ?h6 = "preventLinkCrossings m ?h5"
  have "frame (heap m) ?h1"
    by (rule frame_forEachNode) (simp_all add: applyWallBounds_static)
  moreover have "frame ?h1 ?h2"
    by (rule frame_forEachNode) (simp_all add: applyGroundCollision_static)
  moreover have "frame ?h2 ?h3" by (rule frame_preventLinkCrossings)
  moreover have "frame ?h3 ?h4" by (intro frame_fold frame_Link_satisfy)
  moreover have "frame ?h4 ?h5" by (intro frame_fold frame_AngleConstraint_satisfy)
  moreover have "frame ?h5 ?h6" by (rule frame_preventLinkCrossings)
  ultimately have "frame (heap m) ?h6" by (blast intro: frame_trans)
  then show ?thesis by (simp add: solverIteration_def Let_def)
qed

lemma frame_solverLoop: "frame (heap m) (heap (solverLoop m i))"
proof (induction m i rule: solverLoop.induct)
  case (1 m iteration)
  show ?case
  proof (cases "real iteration < solverIterations m")
    case True
    with 1 have "frame (heap (solverIteration m)) (heap (solverLoop m iteration))"
      by (simp add: solverLoop.simps [of m iteration])
    with frame_solverIteration [of m] show ?thesis by (rule frame_trans)
  next
    case False
    then show ?thesis by (simp add: frame_refl solverLoop.simps [of m iteration])
  qed
qed

lemma gravityPhase_samePlace: "samePlace (heap m r) (heap (gravityPhase m) r)"
proof -
  let ?g = "\<lambda>n. applyForce n (gravity_x m * n_mass n) (gravity_y m * n_mass n)"
  have "samePlace (heap m r) (forEachNode ?g (nodes m) (heap m) r)"
    by (rule forEachNode_inv [where P = "samePlace (heap m r)"])
       (simp_all add: samePlace_def applyForce_def)
  then show ?thesis by (simp add: gravityPhase_def)
qed

lemma gravityPhase_fields:
  "nodes (gravityPhase m) = nodes m" "damping (gravityPhase m) = damping m"
  by (simp_all add: gravityPhase_def)

lemma integrate_pinnedAt:
  "pinnedAt x y n \<Longrightarrow> pinnedAt x y (integrate n dt d)"
  "pinnedAt x y n \<Longrightarrow> pinnedAt x y (integrate n dt d) \<and> restingAt x y (integrate n dt d)"
  by (simp_all add: pinnedAt_def restingAt_def integrate_def)

lemma integratePhase_pinned:
  assumes "pinnedAt x y (heap m r)"
  shows "pinnedAt x y (heap (integratePhase m dt) r)"
    and "r \<in> set (nodes m) \<Longrightarrow> restingAt x y (heap (integratePhase m dt) r)"
    and "r \<notin> set (nodes m) \<Longrightarrow> heap (integratePhase m dt) r = heap m r"
proof -
  let ?g = "\<lambda>n. integrate n dt (damping m)"
  let ?h = "forEachNode ?g (nodes m) (heap m)"
  have h: "heap (integratePhase m dt) = ?h" by (simp add: integratePhase_def)
  show "pinnedAt x y (heap (integratePhase m dt) r)"
    unfolding h using assms
    by (rule forEachNode_inv [where P = "pinnedAt x y", rotated]) (rule integrate_pinnedAt(1))
  show "restingAt x y (heap (integratePhase m dt) r)" if "r \<in> set (nodes m)"
  proof -
    have "pinnedResting x y (?h r)"
    proof (rule forEachNode_in [where P = "pinnedAt x y" and Q = "pinnedResting x y"])
      show "pinnedAt x y (?g n) \<and> pinnedResting x y (?g n)" if "pinnedAt x y n" for n
        using integrate_pinnedAt(2) [OF that] by (simp add: pinnedResting_def)
      show "pinnedAt x y n" if "pinnedResting x y n" for n
        using that by (simp add: pinnedResting_def)
      show "pinnedAt x y (heap m r)" by (rule assms)
      show "r \<in> set (nodes m)" by (rule that)
    qed
    then show ?thesis unfolding h by (simp add: pinnedResting_def)
  qed
  show "heap (integratePhase m dt) r = heap m r" if "r \<notin> set (nodes m)"
    unfolding h using that by (rule forEachNode_notin)
qed

lemma solverLoop_fields: "\<exists>h. solverLoop m i = m\<lparr>heap := h\<rparr>"
proof (induction m i rule: solverLoop.induct)
  case (1 m iteration)
  show ?case
  proof (cases "real iteration < solverIterations m")
    case True
    with 1 obtain h where "solverLoop (solverIteration m) (Suc iteration) = (solverIteration m)\<lparr>heap := h\<rparr>"
      by blast
    with True have "solverLoop m iteration = m\<lparr>heap := h\<rparr>"
      by (simp add: solverIteration_def Let_def solverLoop.simps [of m iteration])
    then show ?thesis by blast
  next
    case False
    then have "solverLoop m iteration = m\<lparr>heap := heap m\<rparr>"
      by (simp add: solverLoop.simps [of m iteration])
    then show ?thesis by blast
  qed
qed

lemma step_fields: "\<exists>h. step m dt = m\<lparr>heap := h\<rparr>"
proof -
  obtain h where "step m dt = (integratePhase (gravityPhase m) dt)\<lparr>heap := h\<rparr>"
    unfolding step_def using solverLoop_fields by blast
  then have "step m dt = m\<lparr>heap := h\<rparr>"
    by (simp add: integratePhase_def gravityPhase_def)
  then show ?thesis by blast
qed

lemma nodes_step: "nodes (step m dt) = nodes m"
proof -
  obtain h where "step m dt = m\<lparr>heap := h\<rparr>" using step_fields by blast
  then show ?thesis by simp
qed

lemma nodes_steps: "nodes (steps m dts) = nodes m"
  unfolding steps_def by (induction dts arbitrary: m) (simp_all add: nodes_step)

lemma step_pinned:
  assumes "pinnedAt x y (heap m r)"
  shows "pinnedAt x y (heap (step m dt) r)"
    and "r \<in> set (nodes m) \<Longrightarrow> restingAt x y (heap (step m dt) r)"
    and "r \<notin> set (nodes m) \<Longrightarrow>
           restingAt (n_px (heap m r)) (n_py (heap m r)) (heap (step m dt) r)"
proof -
  let ?g = "gravityPhase m"
  let ?i = "integratePhase ?g dt"
  have g: "samePlace (heap m r) (heap ?g r)" by (rule gravityPhase_samePlace)
  with assms have pg: "pinnedAt x y (heap ?g r)"
    by (simp add: samePlace_def pinnedAt_def)
  have "frame (heap ?i) (heap (solverLoop ?i 0))" by (rule frame_solverLoop)
  moreover have pi: "pinnedAt x y (heap ?i r)"
    using pg by (rule integratePhase_pinned(1))
  ultimately have "heap (solverLoop ?i 0) r = heap ?i r"
    by (intro frame_pinned) (simp_all add: pinnedAt_def)
  then have e: "heap (step m dt) r = heap ?i r"
    by (simp only: step_def)
  show "pinnedAt x y (heap (step m dt) r)"
    unfolding e by (rule pi)
  show "restingAt x y (heap (step m dt) r)" if "r \<in> set (nodes m)"
    unfolding e using pg that by (intro integratePhase_pinned(2)) (simp_all add: gravityPhase_fields)
  show "restingAt (n_px (heap m r)) (n_py (heap m r)) (heap (step m dt) r)"
    if "r \<notin> set (nodes m)"
  proof -
    have "heap ?i r = heap ?g r"
      using pg that by (intro integratePhase_pinned(3)) (simp_all add: gravityPhase_fields)
    with g show ?thesis unfolding e by (simp add: samePlace_def restingAt_def)
  qed
qed

lemma steps_pinned:
  assumes "pinnedAt x y (heap m r)"
  shows "pinnedAt x y (heap (steps m dts) r)"
    and "r \<in> set (nodes m) \<Longrightarrow> dts \<noteq> [] \<Longrightarrow> restingAt x y (heap (steps m dts) r)"
    and "r \<notin> set (nodes m) \<Longrightarrow>
           restingAt (n_px (heap m r)) (n_py (heap m r)) (heap (steps m dts) r)"
proof -
  show p: "pinnedAt x y (heap (steps m dts) r)" for dts
  proof (induction dts rule: rev_induct)
    case Nil
    show ?case using assms by (simp add: steps_def)
  next
    case (snoc dt dts)
    have "steps m (dts @ [dt]) = step (steps m dts) dt" by (simp add: steps_def)
    with step_pinned(1) [OF snoc] show ?case by simp
  qed
  show "restingAt x y (heap (steps m dts) r)" if "r \<in> set (nodes m)" "dts \<noteq> []"
  proof -
    from that(2) obtain ds d where d: "dts = ds @ [d]" by (metis rev_exhaust)
    have "steps m (ds @ [d]) = step (steps m ds) d" by (simp add: steps_def)
    moreover have "restingAt x y (heap (step (steps m ds) d) r)"
      using that(1) by (intro step_pinned(2) p) (simp add: nodes_steps)
    ultimately show ?thesis unfolding d by simp
  qed
  show "restingAt (n_px (heap m r)) (n_py (heap m r)) (heap (steps m dts) r)"
    if "r \<notin> set (nodes m)"
  proof (induction dts rule: rev_induct)
    case Nil
    show ?case by (simp add: steps_def restingAt_def)
  next
    case (snoc dt dts)
    have s: "steps m (dts @ [dt]) = step (steps m dts) dt" by (simp add: steps_def)
    have "restingAt (n_px (heap (steps m dts) r)) (n_py (heap (steps m dts) r))
            (heap (step (steps m dts) dt) r)"
      using that by (intro step_pinned(3) [OF p]) (simp add: nodes_steps)
    with snoc show ?case unfolding s by (simp add: restingAt_def)
  qed
qed

text \<open>
  Claim C1, as amended. Across any sequence of calls of step, with any time steps, a
  pinned node stays pinned and its position (x, y) never changes. Its previous position
  is not kept: integrate overwrites it with the position, so after at least one step on
  a mesh whose node array holds the node, (px, py) is (x, y); it is unchanged when no
  step ran or the node is not in the node array.
\<close>

theorem pinned_position_fixed:
  assumes "n_pinned (heap m r)"
  shows "n_pinned (heap (steps m dts) r) \<and>
         n_x (heap (steps m dts) r) = n_x (heap m r) \<and>
         n_y (heap (steps m dts) r) = n_y (heap m r) \<and>
         (if r \<in> set (nodes m) \<and> dts \<noteq> []
          then n_px (heap (steps m dts) r) = n_x (heap m r) \<and>
               n_py (heap (steps m dts) r) = n_y (heap m r)
          else n_px (heap (steps m dts) r) = n_px (heap m r) \<and>
               n_py (heap (steps m dts) r) = n_py (heap m r))"
proof -
  have p: "pinnedAt (n_x (heap m r)) (n_y (heap m r)) (heap m r)"
    using assms by (simp add: pinnedAt_def)
  have 1: "pinnedAt (n_x (heap m r)) (n_y (heap m r)) (heap (steps m dts) r)"
    using p by (rule steps_pinned(1))
  have 2: "restingAt (n_x (heap m r)) (n_y (heap m r)) (heap (steps m dts) r)"
    if "r \<in> set (nodes m)" "dts \<noteq> []"
    using p that by (rule steps_pinned(2))
  have 3: "restingAt (n_px (heap m r)) (n_py (heap m r)) (heap (steps m dts) r)"
    if "r \<notin> set (nodes m)"
    using p that by (rule steps_pinned(3))
  have 4: "steps m [] = m" by (simp add: steps_def)
  show ?thesis
  proof (cases "r \<in> set (nodes m) \<and> dts \<noteq> []")
    case True
    with 1 2 show ?thesis by (simp add: pinnedAt_def restingAt_def)
  next
    case False
    show ?thesis
    proof (cases "dts = []")
      case True
      with assms 4 show ?thesis by simp
    next
      case False
      with \<open>\<not> (r \<in> set (nodes m) \<and> dts \<noteq> [])\<close> have "r \<notin> set (nodes m)" by simp
      with 1 3 show ?thesis by (simp add: pinnedAt_def restingAt_def)
    qed
  qed
qed

theorem pinned_position_fixed_witness:
  "n_pinned (heap pinnedMoving 0) \<and>
   n_x (heap (steps pinnedMoving [1 / 60, 1 / 30]) 0) = 100 \<and>
   n_y (heap (steps pinnedMoving [1 / 60, 1 / 30]) 0) = 100 \<and>
   n_px (heap (steps pinnedMoving [1 / 60, 1 / 30]) 0) = 100 \<and>
   n_py (heap (steps pinnedMoving [1 / 60, 1 / 30]) 0) = 100"
proof -
  have h: "n_pinned (heap pinnedMoving 0)"
    by (simp add: pinnedMoving_node)
  from pinned_position_fixed [OF h, of "[1 / 60, 1 / 30]"] show ?thesis
    by (simp add: pinnedMoving_node)
qed

text \<open>
  The claim as stated fails: a pinned node created with an initial velocity has its
  previous position changed by the first step.
\<close>

theorem pinned_previous_position_counterexample:
  "n_pinned (heap pinnedMoving 0) \<and>
   n_py (heap (step pinnedMoving (1 / 60)) 0) \<noteq> n_py (heap pinnedMoving 0)"
proof -
  have p: "pinnedAt 100 100 (heap pinnedMoving 0)"
    by (simp add: pinnedAt_def pinnedMoving_node)
  have "restingAt 100 100 (heap (step pinnedMoving (1 / 60)) 0)"
    using p by (rule step_pinned(2)) (simp add: pinnedMoving_node)
  then show ?thesis
    by (simp add: restingAt_def pinnedMoving_node)
qed

section \<open>Properties of the constraints\<close>

lemma Link_satisfy_free:
  assumes "\<not> n_pinned (h (l_a l))" "\<not> n_pinned (h (l_b l))" "l_a l \<noteq> l_b l"
  shows "n_x (Link_satisfy h l (l_a l)) = n_x (h (l_a l)) + fst (Link_offset h l)"
    "n_y (Link_satisfy h l (l_a l)) = n_y (h (l_a l)) + snd (Link_offset h l)"
    "n_x (Link_satisfy h l (l_b l)) = n_x (h (l_b l)) - fst (Link_offset h l)"
    "n_y (Link_satisfy h l (l_b l)) = n_y (h (l_b l)) - snd (Link_offset h l)"
  using assms by (simp_all add: Link_satisfy_def Let_def)




text \<open>
  Claim C5. A link of rest length 100 and stiffness 1 between two free nodes at
  separation 200: after one call of satisfy the separation is strictly closer to 100 than
  it was.
\<close>

theorem Link_satisfy_stretched:
  assumes "l_rest l = 100" "l_stiffness l = 1"
    "\<not> n_pinned (h (l_a l))" "\<not> n_pinned (h (l_b l))" "separation h l = 200"
  shows "\<bar>separation (Link_satisfy h l) l - 100\<bar> < \<bar>200 - 100\<bar>"
proof -
  let ?dx = "n_x (h (l_b l)) - n_x (h (l_a l))"
  let ?dy = "n_y (h (l_b l)) - n_y (h (l_a l))"
  have d: "hypot ?dx ?dy = 200"
    using assms(5) by (simp add: separation_def)
  have ne: "l_a l \<noteq> l_b l"
  proof
    assume "l_a l = l_b l"
    then have "hypot ?dx ?dy = 0" by simp
    with d show False by simp
  qed
  have off: "Link_offset h l = (?dx / 4, ?dy / 4)"
    using d assms(1,2) by (simp add: Link_offset_def Let_def orElse_def)
  have "separation (Link_satisfy h l) l = hypot ((1 / 2) * ?dx) ((1 / 2) * ?dy)"
    unfolding separation_def Link_satisfy_free [OF assms(3,4) ne] off
    by (simp add: algebra_simps)
  also have "\<dots> = (1 / 2) * hypot ?dx ?dy"
    by (rule hypot_scale) simp
  finally have "separation (Link_satisfy h l) l = 100"
    using d by simp
  then show ?thesis by simp
qed

theorem Link_satisfy_stretched_witness:
  "l_rest (hd (links stretchedMesh)) = 100 \<and> l_stiffness (hd (links stretchedMesh)) = 1 \<and>
   \<not> n_pinned (heap stretchedMesh (l_a (hd (links stretchedMesh)))) \<and>
   \<not> n_pinned (heap stretchedMesh (l_b (hd (links stretchedMesh)))) \<and>
   separation (heap stretchedMesh) (hd (links stretchedMesh)) = 200 \<and>
   \<bar>separation (Link_satisfy (heap stretchedMesh) (hd (links stretchedMesh)))
       (hd (links stretchedMesh)) - 100\<bar> < \<bar>200 - 100\<bar>"
proof -
  have 1: "l_rest (hd (links stretchedMesh)) = 100"
    and 2: "l_stiffness (hd (links stretchedMesh)) = 1"
    and 3: "\<not> n_pinned (heap stretchedMesh (l_a (hd (links stretchedMesh))))"
    and 4: "\<not> n_pinned (heap stretchedMesh (l_b (hd (links stretchedMesh))))"
    and 5: "separation (heap stretchedMesh) (hd (links stretchedMesh)) = 200"
    by (simp_all add: stretchedMesh_eval newNode_def separation_def)
  from 1 2 3 4 5 Link_satisfy_stretched [OF 1 2 3 4 5] show ?thesis by blast
qed

subsection \<open>The epsilon guard\<close>

text \<open>
  In real arithmetic the divisor of satisfy is never 0, and a constraint between
  coincident points moves nothing.
\<close>

lemma orElse_epsilon_pos: "0 < orElse (hypot dx dy) epsilon"
  using hypot_nonneg [of dx dy] by (simp add: orElse_def epsilon_def)

lemma Link_satisfy_coincident:
  assumes "n_x (h (l_a l)) = n_x (h (l_b l))" "n_y (h (l_a l)) = n_y (h (l_b l))"
  shows "Link_satisfy h l = h"
proof -
  have dx: "n_x (h (l_b l)) - n_x (h (l_a l)) = 0"
    and dy: "n_y (h (l_b l)) - n_y (h (l_a l)) = 0"
    using assms by simp_all
  have "Link_offset h l = (0, 0)"
    unfolding Link_offset_def Let_def dx dy by simp
  then show ?thesis
    unfolding Link_satisfy_def Let_def by simp
qed

lemma AngleConstraint_satisfy_coincident:
  assumes "n_x (h (c_a c)) = n_x (h (c_c c))" "n_y (h (c_a c)) = n_y (h (c_c c))"
  shows "AngleConstraint_satisfy h c = h"
proof -
  have dx: "n_x (h (c_c c)) - n_x (h (c_a c)) = 0"
    and dy: "n_y (h (c_c c)) - n_y (h (c_a c)) = 0"
    using assms by simp_all
  show ?thesis
    unfolding AngleConstraint_satisfy_def Let_def dx dy by simp
qed

section \<open>Properties of the structural queries\<close>









section \<open>The invariant of the mesh and the gravity phase\<close>

lemma orDefault_nonzero: "d \<noteq> 0 \<Longrightarrow> orDefault v d \<noteq> 0"
  by (simp add: orDefault_def split: option.split)

lemma meshInv_newMesh: "meshInv (newMesh cfg)"
  by (simp add: meshInv_def newMesh_def Let_def orDefault_nonzero)

lemma meshInv_createNode:
  assumes "meshInv m"
  shows "meshInv (fst (createNode m x y options))"
proof -
  have "n_mass (case opt_initialVelocity options of
                  None \<Rightarrow> newNode x y r ms p
                | Some (vx, vy) \<Rightarrow> (newNode x y r ms p)\<lparr>n_px := x - vx, n_py := y - vy\<rparr>) = ms"
    for r ms p
    by (simp add: newNode_def split: option.split prod.split)
  then show ?thesis
    using assms
    by (auto simp: meshInv_def createNode_def Let_def list_all_iff orDefault_nonzero)
qed

lemma meshInv_createLink: "meshInv m \<Longrightarrow> meshInv (createLink m a b options)"
  by (simp add: meshInv_def createLink_def)

lemma meshInv_createAngleConstraint:
  "meshInv m \<Longrightarrow> meshInv (createAngleConstraint m a b c s)"
  by (simp add: meshInv_def createAngleConstraint_def)

lemma meshInv_createTriangle:
  "meshInv m \<Longrightarrow> meshInv (fst (createTriangle m centerX centerY sz))"
  by (simp add: createTriangle_def Let_def split_beta meshInv_createNode meshInv_createLink
      meshInv_createAngleConstraint)

lemma detachNode_fields:
  "heap (detachNode m node) = heap m" "nextRef (detachNode m node) = nextRef m"
  "defaultNodeMass (detachNode m node) = defaultNodeMass m"
  by (simp_all add: detachNode_def Let_def split: option.split)

lemma removeNode_fields:
  "heap (removeNode m node) = heap m \<and> nextRef (removeNode m node) = nextRef m \<and>
   defaultNodeMass (removeNode m node) = defaultNodeMass m"
  "heap (removeOrphans m cs) = heap m \<and> nextRef (removeOrphans m cs) = nextRef m \<and>
   defaultNodeMass (removeOrphans m cs) = defaultNodeMass m"
  by (induction m node and m cs rule: removeNode_removeOrphans.induct)
     (simp_all add: detachNode_fields)

lemma meshInv_removeNode:
  assumes "meshInv m"
  shows "meshInv (removeNode m node)"
proof -
  have "distinct (nodes (removeNode m node))"
    using assms distinct_removeNode(1) [of m node] by (simp add: meshInv_def)
  moreover have "set (nodes (removeNode m node)) \<subseteq> set (nodes m)"
    using removeNode_subset(1) [of m node] by simp
  ultimately show ?thesis
    using assms removeNode_fields(1) [of m node]
    by (auto simp: meshInv_def list_all_iff)
qed

lemma integratePhase_mass: "n_mass (heap (integratePhase m dt) r) = n_mass (heap m r)"
proof -
  have "n_mass (forEachNode (\<lambda>node. integrate node dt (damping m)) (nodes m) (heap m) r) =
        n_mass (heap m r)"
    by (rule forEachNode_inv [where P = "\<lambda>n. n_mass n = n_mass (heap m r)"])
       (simp_all add: integrate_def Let_def)
  then show ?thesis by (simp add: integratePhase_def)
qed

lemma step_mass: "n_mass (heap (step m dt) r) = n_mass (heap m r)"
proof -
  let ?i = "integratePhase (gravityPhase m) dt"
  have "frame (heap ?i) (heap (solverLoop ?i 0))" by (rule frame_solverLoop)
  then have "n_mass (heap (step m dt) r) = n_mass (heap ?i r)"
    by (simp add: frame_def step_def)
  also have "\<dots> = n_mass (heap (gravityPhase m) r)" by (rule integratePhase_mass)
  also have "\<dots> = n_mass (heap m r)"
    using gravityPhase_samePlace [of m r] by (simp add: samePlace_def)
  finally show ?thesis .
qed

lemma meshInv_step:
  assumes "meshInv m"
  shows "meshInv (step m dt)"
proof -
  obtain h where h: "step m dt = m\<lparr>heap := h\<rparr>" using step_fields by blast
  have "n_mass (h r) = n_mass (heap m r)" for r
    using step_mass [of m dt r] unfolding h by simp
  with assms show ?thesis unfolding h by (simp add: meshInv_def)
qed



end
